theory Spec2Isabelle
  imports Main
begin

section \<open>JavaScript values and property reads\<close>

text \<open>
  The values Helper.js stores and returns: \<open>undefined\<close>, booleans, numbers and
  references to host objects (images, canvas elements, drawing contexts). Numbers are
  only stored and handed on by the code that uses this type, never computed with.
\<close>

datatype jsval = JUndefined | JBool bool | JNum int | JRef nat

text \<open>What \<open>if (v)\<close> and \<open>v || ...\<close> test.\<close>

fun truthy :: "jsval \<Rightarrow> bool" where
  "truthy JUndefined = False"
| "truthy (JBool b) = b"
| "truthy (JNum n) = (n \<noteq> 0)"
| "truthy (JRef r) = True"

text \<open>
  A plain object is a finite map from property keys to values. Reading a property the
  object does not have gives \<open>undefined\<close>; \<open>delete o[k]\<close> is \<open>o(k := None)\<close>.
\<close>

definition field :: "('k \<rightharpoonup> jsval) \<Rightarrow> 'k \<Rightarrow> jsval" where
  "field obj k = (case obj k of None \<Rightarrow> JUndefined | Some v \<Rightarrow> v)"

section \<open>InputHandler\<close>

text \<open>
  \<^verbatim>\<open>
  function InputHandler() {
      this.down = {};
      this.pressed = {};
      var _this = this;
      document.addEventListener("keydown", function(evt) {
          _this.down[evt.keyCode] = true;
      });
      document.addEventListener("keyup", function(evt) {
          delete _this.down[evt.keyCode];
          delete _this.pressed[evt.keyCode];
      });
  }
  \<close>
  The two objects are keyed by key code. The listeners are the functions \<open>keydown\<close>
  and \<open>keyup\<close> on the handler's state; the host calls them between the queries.
\<close>

record InputHandler =
  down :: "int \<rightharpoonup> jsval"
  pressed :: "int \<rightharpoonup> jsval"

definition InputHandler_new :: InputHandler where
  "InputHandler_new = \<lparr>down = Map.empty, pressed = Map.empty\<rparr>"

definition keydown :: "int \<Rightarrow> InputHandler \<Rightarrow> InputHandler" where
  "keydown keyCode s = s\<lparr>down := (down s)(keyCode \<mapsto> JBool True)\<rparr>"

definition keyup :: "int \<Rightarrow> InputHandler \<Rightarrow> InputHandler" where
  "keyup keyCode s =
     (let s1 = s\<lparr>down := (down s)(keyCode := None)\<rparr>
      in s1\<lparr>pressed := (pressed s1)(keyCode := None)\<rparr>)"

text \<open>
  \<^verbatim>\<open>
  InputHandler.prototype.isDown = function(code) {
      return this.down[code];
  };
  InputHandler.prototype.isPressed = function(code) {
      if (this.pressed[code]) {
          return false;
      } else if (this.down[code]) {
          this.pressed[code] = true;
          return this.pressed[code];
      }
      return false;
  };
  \<close>
  \<open>isDown\<close> returns the stored property as it is; \<open>isPressed\<close> returns a value and
  the state it leaves.
\<close>

definition isDown :: "int \<Rightarrow> InputHandler \<Rightarrow> jsval" where
  "isDown code s = field (down s) code"

definition isPressed :: "int \<Rightarrow> InputHandler \<Rightarrow> jsval \<times> InputHandler" where
  "isPressed code s =
     (if truthy (field (pressed s) code) then (JBool False, s)
      else if truthy (field (down s) code) then
        (let s1 = s\<lparr>pressed := (pressed s)(code \<mapsto> JBool True)\<rparr>
         in (field (pressed s1) code, s1))
      else (JBool False, s))"

text \<open>
  What happens to a handler over time: the host delivers key events and the game polls,
  in any order, on one thread.
\<close>

datatype action = KeyDown int | KeyUp int | IsDown int | IsPressed int

fun step :: "action \<Rightarrow> InputHandler \<Rightarrow> InputHandler" where
  "step (KeyDown c) s = keydown c s"
| "step (KeyUp c) s = keyup c s"
| "step (IsDown c) s = s"
| "step (IsPressed c) s = snd (isPressed c s)"

fun exec :: "action list \<Rightarrow> InputHandler \<Rightarrow> InputHandler" where
  "exec [] s = s"
| "exec (a # as) s = exec as (step a s)"

text \<open>The values the calls \<open>isPressed(k)\<close> among the actions return, in order.\<close>

fun polls :: "int \<Rightarrow> action list \<Rightarrow> InputHandler \<Rightarrow> jsval list" where
  "polls k [] s = []"
| "polls k (a # as) s =
     (if a = IsPressed k then fst (isPressed k s) # polls k as (step a s)
      else polls k as (step a s))"

section \<open>FPSCounter\<close>

text \<open>
  \<^verbatim>\<open>
  function FPSCounter(ctx) {
      this.current = 0;
      this.last = 0;
      this.lastUpdated = Date.now();
      this.ctx = ctx;
  }
  FPSCounter.prototype.update = function() {
      this.current++;
      if (Date.now() - this.lastUpdated >= 1000) {
          this.last = this.current;
          this.current = 0;
          this.lastUpdated = Date.now();
      }
  };
  \<close>
  \<open>Date.now()\<close> is the host's clock, in whole milliseconds: each reading is an
  argument. The constructor reads it once; \<open>update\<close> reads it in the test and, when the
  test holds, once more in the assignment. The field \<open>last\<close> is \<open>last_fps\<close> here
  (\<open>last\<close> is a list function of HOL).
\<close>

record FPSCounter =
  current :: int
  last_fps :: int
  lastUpdated :: int
  ctx :: jsval

definition FPSCounter_new :: "int \<Rightarrow> jsval \<Rightarrow> FPSCounter" where
  "FPSCounter_new now c = \<lparr>current = 0, last_fps = 0, lastUpdated = now, ctx = c\<rparr>"

definition update :: "int \<Rightarrow> int \<Rightarrow> FPSCounter \<Rightarrow> FPSCounter" where
  "update now1 now2 f =
     (let f1 = f\<lparr>current := current f + 1\<rparr>
      in if now1 - lastUpdated f1 \<ge> 1000 then
           (let f2 = f1\<lparr>last_fps := current f1\<rparr>;
                f3 = f2\<lparr>current := 0\<rparr>
            in f3\<lparr>lastUpdated := now2\<rparr>)
         else f1)"

text \<open>Successive calls of \<open>update\<close>, each with its clock readings.\<close>

fun updates :: "(int \<times> int) list \<Rightarrow> FPSCounter \<Rightarrow> FPSCounter" where
  "updates [] f = f"
| "updates ((now1, now2) # ts) f = updates ts (update now1 now2 f)"

section \<open>Sprite and Canvas.drawSprite\<close>

text \<open>
  \<^verbatim>\<open>
  function Sprite(img, x, y, w, h) {
      this.img = img;
      this.x = x;
      this.y = y;
      this.width = w;
      this.height = h;
  }
  Sprite.prototype.draw = function(ctx, x, y) {
      ctx.drawImage(this.img, this.x, this.y,
          this.w, this.h, x, y, this.w, this.h);
  };
  Canvas.prototype.drawSprite = function(sprite, x, y) {
      this.ctx.drawImage(sprite.img, sprite.x, sprite.y,
          sprite.w, sprite.h, x, y, sprite.w, sprite.h);
  };
  \<close>
  A sprite is the object the constructor fills, property by property. The drawing
  context is the host's; what the code does with it is the list of calls it makes, so a
  context is the list of the calls it has received, each with its nine arguments
  (image, source x, y, width, height, destination x, y, width, height). The canvas's
  field \<open>ctx\<close> is \<open>canvas_ctx\<close> here (the FPSCounter has a \<open>ctx\<close> of its own).
\<close>

type_synonym object = "string \<rightharpoonup> jsval"

datatype call = DrawImage jsval jsval jsval jsval jsval jsval jsval jsval jsval

type_synonym context2d = "call list"

definition Sprite :: "jsval \<Rightarrow> jsval \<Rightarrow> jsval \<Rightarrow> jsval \<Rightarrow> jsval \<Rightarrow> object" where
  "Sprite img sx sy sw sh =
     ((((Map.empty(''img'' \<mapsto> img))(''x'' \<mapsto> sx))(''y'' \<mapsto> sy))(''width'' \<mapsto> sw))(''height'' \<mapsto> sh)"

definition Sprite_draw :: "object \<Rightarrow> context2d \<Rightarrow> jsval \<Rightarrow> jsval \<Rightarrow> context2d" where
  "Sprite_draw this c dx dy =
     c @ [DrawImage (field this ''img'') (field this ''x'') (field this ''y'')
            (field this ''w'') (field this ''h'') dx dy (field this ''w'') (field this ''h'')]"

record Canvas =
  width :: jsval
  height :: jsval
  canvas_ctx :: context2d

definition drawSprite :: "Canvas \<Rightarrow> object \<Rightarrow> jsval \<Rightarrow> jsval \<Rightarrow> Canvas" where
  "drawSprite this sprite dx dy =
     this\<lparr>canvas_ctx := canvas_ctx this @
       [DrawImage (field sprite ''img'') (field sprite ''x'') (field sprite ''y'')
          (field sprite ''w'') (field sprite ''h'') dx dy (field sprite ''w'') (field sprite ''h'')]\<rparr>"

section \<open>Animate\<close>

text \<open>
  \<^verbatim>\<open>
  function Animate(loop, canvas) {
      var raf = (function() {
          return window.requestAnimationFrame ||
              window.webkitRequestAnimationFrame ||
              window.mozRequestAnimationFrame ||
              window.oRequestAnimationFrame ||
              window.msRequestAnimationFrame;
      })();
      function run() {
          loop();
          raf(run, canvas);
      }
      run();
  }
  \<close>
  The host side: \<open>window\<close> has each of the five functions or not, and all five do the
  same, they register one callback for the next frame. The only callback this code ever
  registers is \<open>run\<close>, so the host's pending registrations are a list holding, for each,
  the element it was registered with. \<open>loop\<close> acts on the game's own state \<open>app\<close>.
  When \<open>window\<close> has none of the five, \<open>raf\<close> is \<open>undefined\<close> and calling it throws.
\<close>

datatype request_fn = Standard | Webkit | Moz | Opera | Ms

record window =
  requestAnimationFrame :: "request_fn option"
  webkitRequestAnimationFrame :: "request_fn option"
  mozRequestAnimationFrame :: "request_fn option"
  oRequestAnimationFrame :: "request_fn option"
  msRequestAnimationFrame :: "request_fn option"

fun orelse :: "'a option \<Rightarrow> 'a option \<Rightarrow> 'a option" where
  "orelse (Some f) g = Some f"
| "orelse None g = g"

definition raf :: "window \<Rightarrow> request_fn option" where
  "raf win =
     orelse (requestAnimationFrame win)
       (orelse (webkitRequestAnimationFrame win)
         (orelse (mozRequestAnimationFrame win)
           (orelse (oRequestAnimationFrame win) (msRequestAnimationFrame win))))"

datatype error = TypeError

record 'u host =
  app :: 'u
  pending :: "jsval list"

definition run :: "window \<Rightarrow> ('u \<Rightarrow> 'u) \<Rightarrow> jsval \<Rightarrow> 'u host \<Rightarrow> error + 'u host" where
  "run win loop canvas hst =
     (let h1 = hst\<lparr>app := loop (app hst)\<rparr>
      in case raf win of
           None \<Rightarrow> Inl TypeError
         | Some f \<Rightarrow> Inr (h1\<lparr>pending := pending h1 @ [canvas]\<rparr>))"

definition Animate :: "window \<Rightarrow> ('u \<Rightarrow> 'u) \<Rightarrow> jsval \<Rightarrow> 'u host \<Rightarrow> error + 'u host" where
  "Animate win loop canvas hst = run win loop canvas hst"

text \<open>
  One frame notification: the host takes the oldest pending registration and calls its
  callback, \<open>run\<close>. With nothing pending a frame calls nothing.
\<close>

definition frame :: "window \<Rightarrow> ('u \<Rightarrow> 'u) \<Rightarrow> jsval \<Rightarrow> 'u host \<Rightarrow> error + 'u host" where
  "frame win loop canvas hst =
     (case pending hst of
        [] \<Rightarrow> Inr hst
      | c # rest \<Rightarrow> run win loop canvas (hst\<lparr>pending := rest\<rparr>))"

fun frames :: "nat \<Rightarrow> window \<Rightarrow> ('u \<Rightarrow> 'u) \<Rightarrow> jsval \<Rightarrow> 'u host \<Rightarrow> error + 'u host" where
  "frames 0 win loop canvas hst = Inr hst"
| "frames (Suc n) win loop canvas hst =
     (case frame win loop canvas hst of
        Inl e \<Rightarrow> Inl e
      | Inr h1 \<Rightarrow> frames n win loop canvas h1)"

text \<open>
  The driver after \<open>m\<close> ticks in all: the synchronous call of \<open>Animate\<close> is the first,
  each of the others is a frame notification.
\<close>

fun ticks :: "nat \<Rightarrow> window \<Rightarrow> ('u \<Rightarrow> 'u) \<Rightarrow> jsval \<Rightarrow> 'u host \<Rightarrow> error + 'u host" where
  "ticks 0 win loop canvas hst = Inr hst"
| "ticks (Suc n) win loop canvas hst =
     (case Animate win loop canvas hst of
        Inl e \<Rightarrow> Inl e
      | Inr h1 \<Rightarrow> frames n win loop canvas h1)"

section \<open>AABBIntersect\<close>

text \<open>
  \<^verbatim>\<open>
  function AABBIntersect(a, b) {
      return a.x < b.x + b.w && b.x < a.x + a.w && a.y < b.y + b.h && b.y < a.y + a.h;
  }
  \<close>
  The rectangles' fields are numbers of one kind \<open>'a\<close>, with the \<open>+\<close> and \<open><\<close>
  of that kind; nothing is assumed of them here. On numbers every \<open><\<close> gives a
  boolean, and so does \<open>&&\<close> of booleans.
\<close>

record 'a rect =
  x :: 'a
  y :: 'a
  w :: 'a
  h :: 'a

definition AABBIntersect :: "('a::{plus,ord}) rect \<Rightarrow> 'a rect \<Rightarrow> bool" where
  "AABBIntersect a b \<longleftrightarrow>
     x a < x b + w b \<and> x b < x a + w a \<and> y a < y b + h b \<and> y b < y a + h a"

section \<open>Properties of the InputHandler\<close>

lemma step_keeps_pressed_in_down:
  "dom (pressed s) \<subseteq> dom (down s) \<Longrightarrow> dom (pressed (step a s)) \<subseteq> dom (down (step a s))"
  by (cases a) (auto simp: keydown_def keyup_def isPressed_def field_def Let_def
      split: option.splits if_splits)

lemma exec_keeps_pressed_in_down:
  "dom (pressed s) \<subseteq> dom (down s) \<Longrightarrow> dom (pressed (exec as s)) \<subseteq> dom (down (exec as s))"
proof (induction as arbitrary: s)
  case Nil
  then show ?case by simp
next
  case (Cons a as)
  have "dom (pressed (step a s)) \<subseteq> dom (down (step a s))"
    using Cons.prems by (rule step_keeps_pressed_in_down)
  then show ?case using Cons.IH by simp
qed

text \<open>
  C6. In every state reached from the freshly constructed handler by key-down events,
  key-up events and isDown/isPressed queries in any order, every key code in \<open>pressed\<close>
  is also in \<open>down\<close>. The converse fails: after a key-down that no isPressed has
  seen yet, the key is in \<open>down\<close> and not in \<open>pressed\<close>.
\<close>

theorem pressed_subset_down:
  "dom (pressed (exec as InputHandler_new)) \<subseteq> dom (down (exec as InputHandler_new))
   \<and> 38 \<in> dom (down (exec [KeyDown 38] InputHandler_new))
   \<and> 38 \<notin> dom (pressed (exec [KeyDown 38] InputHandler_new))"
proof -
  have "dom (pressed InputHandler_new) \<subseteq> dom (down InputHandler_new)"
    by (simp add: InputHandler_new_def)
  then have "dom (pressed (exec as InputHandler_new)) \<subseteq> dom (down (exec as InputHandler_new))"
    by (rule exec_keeps_pressed_in_down)
  moreover have "38 \<in> dom (down (exec [KeyDown 38] InputHandler_new))"
    by (simp add: InputHandler_new_def keydown_def)
  moreover have "38 \<notin> dom (pressed (exec [KeyDown 38] InputHandler_new))"
    by (simp add: InputHandler_new_def keydown_def)
  ultimately show ?thesis by blast
qed

lemma exec_append: "exec (as @ bs) s = exec bs (exec as s)"
  by (induction as arbitrary: s) simp_all

lemma step_consumed:
  "a \<noteq> KeyUp k \<Longrightarrow> truthy (field (pressed s) k) \<Longrightarrow> truthy (field (pressed (step a s)) k)"
  by (cases a) (auto simp: keydown_def keyup_def isPressed_def field_def Let_def)

lemma isPressed_consumed:
  "truthy (field (pressed s) k) \<Longrightarrow> isPressed k s = (JBool False, s)"
  by (simp add: isPressed_def)

lemma polls_consumed:
  "KeyUp k \<notin> set as \<Longrightarrow> truthy (field (pressed s) k) \<Longrightarrow>
   polls k as s = replicate (count_list as (IsPressed k)) (JBool False)"
proof (induction as arbitrary: s)
  case Nil
  then show ?case by simp
next
  case (Cons a as)
  from Cons.prems have ne: "a \<noteq> KeyUp k" and rest: "KeyUp k \<notin> set as" by auto
  have "truthy (field (pressed (step a s)) k)"
    using ne Cons.prems(2) by (rule step_consumed)
  with rest have "polls k as (step a s) = replicate (count_list as (IsPressed k)) (JBool False)"
    by (rule Cons.IH)
  then show ?case using Cons.prems(2)
    by (cases "a = IsPressed k") (simp_all add: isPressed_consumed)
qed

lemma step_armed:
  "a \<noteq> KeyUp k \<Longrightarrow> a \<noteq> IsPressed k \<Longrightarrow>
   truthy (field (down s) k) \<and> \<not> truthy (field (pressed s) k) \<Longrightarrow>
   truthy (field (down (step a s)) k) \<and> \<not> truthy (field (pressed (step a s)) k)"
  by (cases a) (auto simp: keydown_def keyup_def isPressed_def field_def Let_def)

lemma isPressed_armed:
  "truthy (field (down s) k) \<Longrightarrow> \<not> truthy (field (pressed s) k) \<Longrightarrow>
   fst (isPressed k s) = JBool True \<and> truthy (field (pressed (snd (isPressed k s))) k)"
  by (simp add: isPressed_def field_def Let_def)

lemma polls_armed:
  "KeyUp k \<notin> set as \<Longrightarrow> truthy (field (down s) k) \<Longrightarrow> \<not> truthy (field (pressed s) k) \<Longrightarrow>
   polls k as s =
     (case count_list as (IsPressed k) of 0 \<Rightarrow> [] | Suc m \<Rightarrow> JBool True # replicate m (JBool False))"
proof (induction as arbitrary: s)
  case Nil
  then show ?case by simp
next
  case (Cons a as)
  from Cons.prems have ne: "a \<noteq> KeyUp k" and rest: "KeyUp k \<notin> set as" by auto
  show ?case
  proof (cases "a = IsPressed k")
    case True
    have "truthy (field (pressed (step a s)) k)"
      using True isPressed_armed [OF Cons.prems(2,3)] by simp
    with rest have "polls k as (step a s) = replicate (count_list as (IsPressed k)) (JBool False)"
      by (rule polls_consumed)
    then show ?thesis using True isPressed_armed [OF Cons.prems(2,3)] by simp
  next
    case False
    have "truthy (field (down (step a s)) k) \<and> \<not> truthy (field (pressed (step a s)) k)"
      using ne False Cons.prems(2,3) by (intro step_armed) simp_all
    then have "polls k as (step a s) =
      (case count_list as (IsPressed k) of 0 \<Rightarrow> [] | Suc m \<Rightarrow> JBool True # replicate m (JBool False))"
      using rest Cons.IH by blast
    then show ?thesis using False by simp
  qed
qed

lemma keydown_arms:
  "\<not> truthy (field (pressed s) k) \<Longrightarrow>
   truthy (field (down (keydown k s)) k) \<and> \<not> truthy (field (pressed (keydown k s)) k)"
  by (simp add: keydown_def field_def)

text \<open>
  C1. Edge-trigger law. Take a handler in which the press of \<open>k\<close> has not been
  reported (the fresh handler is one), deliver one key-down event for \<open>k\<close>, and then
  let anything happen except a key-up or a key-down event for \<open>k\<close>: events for other
  keys, isDown queries, isPressed queries for any key. The first call
  \<open>isPressed(k)\<close> returns \<open>true\<close> and every later one returns \<open>false\<close>.
\<close>

theorem edge_trigger:
  assumes "\<not> truthy (field (pressed s) k)"
    and "KeyUp k \<notin> set as" and "KeyDown k \<notin> set as"
  shows "polls k as (keydown k s) =
     (case count_list as (IsPressed k) of 0 \<Rightarrow> [] | Suc m \<Rightarrow> JBool True # replicate m (JBool False))"
proof -
  have "truthy (field (down (keydown k s)) k)" and "\<not> truthy (field (pressed (keydown k s)) k)"
    using keydown_arms [OF assms(1)] by simp_all
  with assms(2) show ?thesis by (rule polls_armed)
qed

theorem edge_trigger_witness:
  "\<not> truthy (field (pressed InputHandler_new) 32)
   \<and> KeyUp 32 \<notin> set [IsPressed 32, IsDown 32, KeyDown 65, IsPressed 32, IsPressed 65, KeyUp 65, IsPressed 32]
   \<and> KeyDown 32 \<notin> set [IsPressed 32, IsDown 32, KeyDown 65, IsPressed 32, IsPressed 65, KeyUp 65, IsPressed 32]
   \<and> polls 32 [IsPressed 32, IsDown 32, KeyDown 65, IsPressed 32, IsPressed 65, KeyUp 65, IsPressed 32]
     (keydown 32 InputHandler_new) = [JBool True, JBool False, JBool False]"
proof -
  have a: "\<not> truthy (field (pressed InputHandler_new) 32)"
    by (simp add: InputHandler_new_def field_def)
  from edge_trigger [OF a, of "[IsPressed 32, IsDown 32, KeyDown 65, IsPressed 32, IsPressed 65, KeyUp 65, IsPressed 32]"] a
  show ?thesis by simp
qed

lemma keyup_releases:
  "\<not> truthy (field (down (keyup k s)) k) \<and> \<not> truthy (field (pressed (keyup k s)) k)"
  by (simp add: keyup_def field_def Let_def)

lemma step_released:
  "a \<noteq> KeyDown k \<Longrightarrow>
   \<not> truthy (field (down s) k) \<and> \<not> truthy (field (pressed s) k) \<Longrightarrow>
   \<not> truthy (field (down (step a s)) k) \<and> \<not> truthy (field (pressed (step a s)) k)"
  by (cases a) (auto simp: keydown_def keyup_def isPressed_def field_def Let_def)

lemma exec_released:
  "KeyDown k \<notin> set as \<Longrightarrow>
   \<not> truthy (field (down s) k) \<and> \<not> truthy (field (pressed s) k) \<Longrightarrow>
   \<not> truthy (field (down (exec as s)) k) \<and> \<not> truthy (field (pressed (exec as s)) k)"
proof (induction as arbitrary: s)
  case Nil
  then show ?case by simp
next
  case (Cons a as)
  from Cons.prems(1) have ne: "a \<noteq> KeyDown k" and rest: "KeyDown k \<notin> set as" by auto
  have "\<not> truthy (field (down (step a s)) k) \<and> \<not> truthy (field (pressed (step a s)) k)"
    using ne Cons.prems(2) by (rule step_released)
  with rest show ?case using Cons.IH by simp
qed

lemma exec_armed:
  "KeyUp k \<notin> set as \<Longrightarrow> IsPressed k \<notin> set as \<Longrightarrow>
   truthy (field (down s) k) \<and> \<not> truthy (field (pressed s) k) \<Longrightarrow>
   truthy (field (down (exec as s)) k) \<and> \<not> truthy (field (pressed (exec as s)) k)"
proof (induction as arbitrary: s)
  case Nil
  then show ?case by simp
next
  case (Cons a as)
  from Cons.prems(1,2) have ne: "a \<noteq> KeyUp k" "a \<noteq> IsPressed k"
    and rest: "KeyUp k \<notin> set as" "IsPressed k \<notin> set as" by auto
  have "truthy (field (down (step a s)) k) \<and> \<not> truthy (field (pressed (step a s)) k)"
    using ne Cons.prems(3) by (rule step_armed)
  with rest show ?case using Cons.IH by simp
qed

text \<open>
  C5. Re-arm law. After \<open>isPressed(k)\<close> has returned \<open>true\<close>, a key-up event for
  \<open>k\<close> followed by a key-down event for \<open>k\<close> makes the next call
  \<open>isPressed(k)\<close> return \<open>true\<close> again. Anything may happen before the key-up
  (\<open>q1\<close>), anything but a key-down for \<open>k\<close> between the two events (\<open>q2\<close>), and
  anything but a key-up or an isPressed for \<open>k\<close> between the key-down and that next
  call (\<open>q3\<close>).
\<close>

theorem rearm:
  assumes "isPressed k s0 = (JBool True, s1)"
    and "KeyDown k \<notin> set q2"
    and "KeyUp k \<notin> set q3" and "IsPressed k \<notin> set q3"
  shows "fst (isPressed k (exec (q1 @ [KeyUp k] @ q2 @ [KeyDown k] @ q3) s1)) = JBool True"
proof -
  let ?up = "keyup k (exec q1 s1)"
  let ?mid = "exec q2 ?up"
  have "\<not> truthy (field (down ?mid) k) \<and> \<not> truthy (field (pressed ?mid) k)"
    using assms(2) keyup_releases by (rule exec_released)
  then have "truthy (field (down (keydown k ?mid)) k)
      \<and> \<not> truthy (field (pressed (keydown k ?mid)) k)"
    by (simp add: keydown_arms)
  with assms(3,4) have "truthy (field (down (exec q3 (keydown k ?mid))) k)
      \<and> \<not> truthy (field (pressed (exec q3 (keydown k ?mid))) k)"
    by (rule exec_armed)
  then have "fst (isPressed k (exec q3 (keydown k ?mid))) = JBool True"
    by (simp add: isPressed_armed)
  then show ?thesis by (simp add: exec_append)
qed

theorem rearm_witness:
  "isPressed 32 (keydown 32 InputHandler_new) =
     (JBool True, \<lparr>down = [32 \<mapsto> JBool True], pressed = [32 \<mapsto> JBool True]\<rparr>)
   \<and> fst (isPressed 32 \<lparr>down = [32 \<mapsto> JBool True], pressed = [32 \<mapsto> JBool True]\<rparr>) = JBool False
   \<and> KeyDown 32 \<notin> set [IsPressed 32, KeyDown 65]
   \<and> KeyUp 32 \<notin> set [IsDown 32, KeyUp 65] \<and> IsPressed 32 \<notin> set [IsDown 32, KeyUp 65]
   \<and> fst (isPressed 32 (exec ([IsPressed 32] @ [KeyUp 32] @ [IsPressed 32, KeyDown 65]
          @ [KeyDown 32] @ [IsDown 32, KeyUp 65])
        \<lparr>down = [32 \<mapsto> JBool True], pressed = [32 \<mapsto> JBool True]\<rparr>)) = JBool True"
proof -
  have a: "isPressed 32 (keydown 32 InputHandler_new) =
     (JBool True, \<lparr>down = [32 \<mapsto> JBool True], pressed = [32 \<mapsto> JBool True]\<rparr>)"
    by (simp add: isPressed_def keydown_def InputHandler_new_def field_def)
  have b: "fst (isPressed 32 \<lparr>down = [32 \<mapsto> JBool True], pressed = [32 \<mapsto> JBool True]\<rparr>) = JBool False"
    by (simp add: isPressed_def field_def)
  have c: "KeyDown 32 \<notin> set [IsPressed 32, KeyDown 65]" by simp
  have d: "KeyUp 32 \<notin> set [IsDown 32, KeyUp 65]" by simp
  have e: "IsPressed 32 \<notin> set [IsDown 32, KeyUp 65]" by simp
  from rearm [OF a c d e, of "[IsPressed 32]"] a b c d e show ?thesis by blast
qed

text \<open>
  C10. A key-down event leaves the \<open>pressed\<close> object as it is. So once
  \<open>isPressed(k)\<close> has returned \<open>true\<close>, every later call \<open>isPressed(k)\<close> returns
  \<open>false\<close> as long as no key-up event for \<open>k\<close> arrives, however many key-down events
  for \<open>k\<close> (the host's auto-repeat) arrive in between.
\<close>

theorem keydown_no_rearm:
  assumes "isPressed k s0 = (JBool True, s1)" and "KeyUp k \<notin> set as"
  shows "pressed (keydown c s) = pressed s
    \<and> polls k as s1 = replicate (count_list as (IsPressed k)) (JBool False)"
proof -
  have "truthy (field (pressed s1) k)"
    using assms(1) by (auto simp: isPressed_def field_def Let_def split: if_splits)
  with assms(2) have "polls k as s1 = replicate (count_list as (IsPressed k)) (JBool False)"
    by (rule polls_consumed)
  moreover have "pressed (keydown c s) = pressed s"
    by (simp add: keydown_def)
  ultimately show ?thesis by simp
qed

theorem keydown_no_rearm_witness:
  "isPressed 32 (keydown 32 InputHandler_new) =
     (JBool True, \<lparr>down = [32 \<mapsto> JBool True], pressed = [32 \<mapsto> JBool True]\<rparr>)
   \<and> KeyUp 32 \<notin> set [KeyDown 32, IsPressed 32, KeyDown 32, KeyDown 32, IsPressed 32]
   \<and> pressed (keydown 32 \<lparr>down = [32 \<mapsto> JBool True], pressed = [32 \<mapsto> JBool True]\<rparr>)
       = [32 \<mapsto> JBool True]
   \<and> polls 32 [KeyDown 32, IsPressed 32, KeyDown 32, KeyDown 32, IsPressed 32]
       \<lparr>down = [32 \<mapsto> JBool True], pressed = [32 \<mapsto> JBool True]\<rparr> = [JBool False, JBool False]"
proof -
  have a: "isPressed 32 (keydown 32 InputHandler_new) =
     (JBool True, \<lparr>down = [32 \<mapsto> JBool True], pressed = [32 \<mapsto> JBool True]\<rparr>)"
    by (simp add: isPressed_def keydown_def InputHandler_new_def field_def)
  have b: "KeyUp 32 \<notin> set [KeyDown 32, IsPressed 32, KeyDown 32, KeyDown 32, IsPressed 32]"
    by simp
  from keydown_no_rearm [OF a b, of 32 "\<lparr>down = [32 \<mapsto> JBool True], pressed = [32 \<mapsto> JBool True]\<rparr>"] a b
  show ?thesis by simp
qed

lemma exec_not_down:
  "KeyDown k \<notin> set as \<Longrightarrow> down s k = None \<Longrightarrow> down (exec as s) k = None"
proof (induction as arbitrary: s)
  case Nil
  then show ?case by simp
next
  case (Cons a as)
  from Cons.prems(1) have ne: "a \<noteq> KeyDown k" and rest: "KeyDown k \<notin> set as" by auto
  have "down (step a s) k = None"
    using ne Cons.prems(2)
    by (cases a) (auto simp: keydown_def keyup_def isPressed_def Let_def)
  with rest show ?case using Cons.IH by simp
qed

text \<open>
  C7. A key \<open>k\<close> for which no key-down event was ever delivered: \<open>isPressed(k)\<close>
  returns \<open>false\<close>, and \<open>isDown(k)\<close> returns \<open>undefined\<close>, the value of the absent
  property, which is not the boolean \<open>false\<close> its documentation (a bool) promises.
\<close>

theorem unseen_key:
  assumes "KeyDown k \<notin> set as"
  shows "isDown k (exec as InputHandler_new) = JUndefined
    \<and> isDown k (exec as InputHandler_new) \<noteq> JBool False
    \<and> fst (isPressed k (exec as InputHandler_new)) = JBool False"
proof -
  have "down InputHandler_new k = None" by (simp add: InputHandler_new_def)
  with assms have "down (exec as InputHandler_new) k = None" by (rule exec_not_down)
  then show ?thesis by (simp add: isDown_def isPressed_def field_def)
qed

theorem unseen_key_witness:
  "KeyDown 38 \<notin> set [KeyDown 65, KeyUp 38, IsPressed 65]
   \<and> isDown 38 (exec [KeyDown 65, KeyUp 38, IsPressed 65] InputHandler_new) = JUndefined
   \<and> isDown 38 (exec [KeyDown 65, KeyUp 38, IsPressed 65] InputHandler_new) \<noteq> JBool False
   \<and> fst (isPressed 38 (exec [KeyDown 65, KeyUp 38, IsPressed 65] InputHandler_new)) = JBool False"
proof -
  have a: "KeyDown 38 \<notin> set [KeyDown 65, KeyUp 38, IsPressed 65]" by simp
  from unseen_key [OF a] a show ?thesis by simp
qed

section \<open>Properties of the FPSCounter\<close>

lemma updates_in_window:
  "\<forall>t \<in> set ts. fst t - lastUpdated f < 1000 \<Longrightarrow>
   updates ts f = f\<lparr>current := current f + int (length ts)\<rparr>"
proof (induction ts arbitrary: f)
  case Nil
  then show ?case by simp
next
  case (Cons t ts)
  obtain now1 now2 where t: "t = (now1, now2)" by (cases t)
  from Cons.prems t have early: "now1 - lastUpdated f < 1000" by simp
  then have u: "update now1 now2 f = f\<lparr>current := current f + 1\<rparr>"
    by (simp add: update_def Let_def)
  from Cons.prems have "\<forall>t \<in> set ts. fst t - lastUpdated (update now1 now2 f) < 1000"
    by (simp add: u)
  then have "updates ts (update now1 now2 f) =
      (update now1 now2 f)\<lparr>current := current (update now1 now2 f) + int (length ts)\<rparr>"
    by (rule Cons.IH)
  then show ?case by (simp add: t u)
qed

text \<open>
  C3, as the code has it. A counter constructed at clock reading \<open>t0\<close>, then \<open>n\<close>
  calls of \<open>update\<close> whose readings are all less than 1000 ms after \<open>t0\<close>: \<open>last\<close>
  is 0, \<open>current\<close> is \<open>n\<close> and \<open>lastUpdated\<close> is still \<open>t0\<close>. One more call
  that reads a clock at least 1000 ms after \<open>lastUpdated\<close>: \<open>last\<close> is \<open>n + 1\<close>
  (the call that closes the window counts itself before it tests the clock),
  \<open>current\<close> is 0 and \<open>lastUpdated\<close> is the call's second clock reading.
\<close>

theorem fps_rollover:
  assumes "\<forall>t \<in> set ts. fst t - t0 < 1000" and "now1 - t0 \<ge> 1000"
  shows "updates ts (FPSCounter_new t0 c) =
           \<lparr>current = int (length ts), last_fps = 0, lastUpdated = t0, ctx = c\<rparr>
    \<and> update now1 now2 (updates ts (FPSCounter_new t0 c)) =
           \<lparr>current = 0, last_fps = int (length ts) + 1, lastUpdated = now2, ctx = c\<rparr>"
proof -
  have "\<forall>t \<in> set ts. fst t - lastUpdated (FPSCounter_new t0 c) < 1000"
    using assms(1) by (simp add: FPSCounter_new_def)
  then have "updates ts (FPSCounter_new t0 c) =
      (FPSCounter_new t0 c)\<lparr>current := current (FPSCounter_new t0 c) + int (length ts)\<rparr>"
    by (rule updates_in_window)
  then have n: "updates ts (FPSCounter_new t0 c) =
      \<lparr>current = int (length ts), last_fps = 0, lastUpdated = t0, ctx = c\<rparr>"
    by (simp add: FPSCounter_new_def)
  have "update now1 now2 \<lparr>current = int (length ts), last_fps = 0, lastUpdated = t0, ctx = c\<rparr> =
      \<lparr>current = 0, last_fps = int (length ts) + 1, lastUpdated = now2, ctx = c\<rparr>"
    using assms(2) by (simp add: update_def Let_def)
  with n show ?thesis by simp
qed

theorem fps_rollover_witness:
  "(10::int) - 0 < 1000 \<and> (20::int) - 0 < 1000 \<and> (1003::int) - 0 \<ge> 1000
   \<and> updates [(10, 10), (20, 21)] (FPSCounter_new 0 (JRef 1)) =
        \<lparr>current = 2, last_fps = 0, lastUpdated = 0, ctx = JRef 1\<rparr>
   \<and> update 1003 1004 (updates [(10, 10), (20, 21)] (FPSCounter_new 0 (JRef 1))) =
        \<lparr>current = 0, last_fps = 3, lastUpdated = 1004, ctx = JRef 1\<rparr>"
proof -
  have a: "\<forall>t \<in> set [(10, 10), (20, 21)]. fst t - 0 < (1000::int)" by simp
  have b: "(1003::int) - 0 \<ge> 1000" by simp
  from fps_rollover [OF a b, of "JRef 1" 1004] a b show ?thesis
    by (simp add: FPSCounter_new_def update_def Let_def)
qed

text \<open>
  C3, as the claim words it (\<open>last\<close> equals \<open>n\<close> after the rollover), fails: two
  frames at 10 ms and 20 ms, then a call at 1003 ms, leave \<open>last\<close> at 3.
\<close>

theorem fps_rollover_counterexample:
  "current (updates [(10, 10), (20, 21)] (FPSCounter_new 0 (JRef 1))) = 2
   \<and> last_fps (updates [(10, 10), (20, 21)] (FPSCounter_new 0 (JRef 1))) = 0
   \<and> 1003 - lastUpdated (updates [(10, 10), (20, 21)] (FPSCounter_new 0 (JRef 1))) \<ge> 1000
   \<and> last_fps (update 1003 1004 (updates [(10, 10), (20, 21)] (FPSCounter_new 0 (JRef 1)))) = 3
   \<and> last_fps (update 1003 1004 (updates [(10, 10), (20, 21)] (FPSCounter_new 0 (JRef 1)))) \<noteq> 2"
  by (simp add: FPSCounter_new_def update_def Let_def)

section \<open>Properties of Sprite drawing\<close>

text \<open>
  C4. What the two draw paths pass to \<open>drawImage\<close> for a sprite built by the
  constructor. The image and the source position are the stored ones; the four
  dimension arguments are \<open>undefined\<close>, because the constructor stores the dimensions
  as \<open>width\<close> and \<open>height\<close> and both paths read \<open>w\<close> and \<open>h\<close>. For a 16 by 24
  sprite the call is not the unscaled blit of its stored rectangle.
\<close>

theorem sprite_draw_dimensions:
  "Sprite_draw (Sprite img sx sy sw sh) c dx dy =
     c @ [DrawImage img sx sy JUndefined JUndefined dx dy JUndefined JUndefined]
   \<and> canvas_ctx (drawSprite cv (Sprite img sx sy sw sh) dx dy) =
     canvas_ctx cv @ [DrawImage img sx sy JUndefined JUndefined dx dy JUndefined JUndefined]
   \<and> Sprite_draw (Sprite (JRef 0) (JNum 0) (JNum 0) (JNum 16) (JNum 24)) [] (JNum 100) (JNum 50) \<noteq>
     [DrawImage (JRef 0) (JNum 0) (JNum 0) (JNum 16) (JNum 24) (JNum 100) (JNum 50) (JNum 16) (JNum 24)]"
  by (simp add: Sprite_draw_def drawSprite_def Sprite_def field_def)

section \<open>Properties of Animate\<close>

lemma raf_run:
  "raf win = Some f \<Longrightarrow>
   run win loop canvas hst = Inr \<lparr>app = loop (app hst), pending = pending hst @ [canvas]\<rparr>"
  by (simp add: run_def Let_def)

lemma frames_pending_one:
  "raf win = Some f \<Longrightarrow>
   frames n win loop canvas \<lparr>app = u, pending = [canvas]\<rparr> =
     Inr \<lparr>app = (loop ^^ n) u, pending = [canvas]\<rparr>"
proof (induction n arbitrary: u)
  case 0
  then show ?case by simp
next
  case (Suc n)
  have "frame win loop canvas \<lparr>app = u, pending = [canvas]\<rparr> =
      Inr \<lparr>app = loop u, pending = [canvas]\<rparr>"
    using Suc.prems by (simp add: frame_def raf_run)
  moreover have "frames n win loop canvas \<lparr>app = loop u, pending = [canvas]\<rparr> =
      Inr \<lparr>app = (loop ^^ n) (loop u), pending = [canvas]\<rparr>"
    using Suc.prems by (rule Suc.IH)
  ultimately show ?case by (simp add: funpow_swap1)
qed

lemma funpow_increment: "((\<lambda>n::int. n + 1) ^^ m) c = c + int m"
  by (induction m) simp_all

text \<open>
  C9. On a host that has one of the five frame-request functions: \<open>Animate\<close> calls
  \<open>loop\<close> once at once and leaves exactly one registration pending; a frame
  notification with that one registration pending calls \<open>loop\<close> once and leaves
  exactly one registration pending again; and with a callback that adds 1 to a counter
  that starts at 0, the counter is \<open>m\<close> after \<open>m\<close> ticks in all, the synchronous
  call being the first tick.
\<close>

theorem animate_ticks:
  assumes "raf win = Some f"
  shows "Animate win loop canvas \<lparr>app = u, pending = []\<rparr> =
           Inr \<lparr>app = loop u, pending = [canvas]\<rparr>
    \<and> frame win loop canvas \<lparr>app = u, pending = [canvas]\<rparr> =
           Inr \<lparr>app = loop u, pending = [canvas]\<rparr>
    \<and> ticks m win (\<lambda>n::int. n + 1) canvas \<lparr>app = 0, pending = []\<rparr> =
           Inr \<lparr>app = int m, pending = (if m = 0 then [] else [canvas])\<rparr>"
proof -
  have a: "Animate win loop canvas \<lparr>app = u, pending = []\<rparr> =
      Inr \<lparr>app = loop u, pending = [canvas]\<rparr>" for loop :: "'a \<Rightarrow> 'a" and u
    using assms by (simp add: Animate_def raf_run)
  have b: "frame win loop canvas \<lparr>app = u, pending = [canvas]\<rparr> =
      Inr \<lparr>app = loop u, pending = [canvas]\<rparr>"
    using assms by (simp add: frame_def raf_run)
  have c: "ticks m win (\<lambda>n::int. n + 1) canvas \<lparr>app = 0, pending = []\<rparr> =
      Inr \<lparr>app = int m, pending = (if m = 0 then [] else [canvas])\<rparr>"
  proof (cases m)
    case 0
    then show ?thesis by simp
  next
    case (Suc j)
    have "frames j win (\<lambda>n::int. n + 1) canvas \<lparr>app = 1, pending = [canvas]\<rparr> =
        Inr \<lparr>app = ((\<lambda>n::int. n + 1) ^^ j) 1, pending = [canvas]\<rparr>"
      using assms by (rule frames_pending_one)
    then show ?thesis
      using assms Suc by (simp add: Animate_def raf_run funpow_increment)
  qed
  from a b c show ?thesis by simp
qed

theorem animate_ticks_witness:
  "raf \<lparr>requestAnimationFrame = None, webkitRequestAnimationFrame = None,
        mozRequestAnimationFrame = Some Moz, oRequestAnimationFrame = None,
        msRequestAnimationFrame = Some Ms\<rparr> = Some Moz
   \<and> Animate \<lparr>requestAnimationFrame = None, webkitRequestAnimationFrame = None,
        mozRequestAnimationFrame = Some Moz, oRequestAnimationFrame = None,
        msRequestAnimationFrame = Some Ms\<rparr> (\<lambda>n::int. 2 * n) (JRef 7) \<lparr>app = 3, pending = []\<rparr> =
      Inr \<lparr>app = 6, pending = [JRef 7]\<rparr>
   \<and> frame \<lparr>requestAnimationFrame = None, webkitRequestAnimationFrame = None,
        mozRequestAnimationFrame = Some Moz, oRequestAnimationFrame = None,
        msRequestAnimationFrame = Some Ms\<rparr> (\<lambda>n::int. 2 * n) (JRef 7) \<lparr>app = 3, pending = [JRef 7]\<rparr> =
      Inr \<lparr>app = 6, pending = [JRef 7]\<rparr>
   \<and> ticks 4 \<lparr>requestAnimationFrame = None, webkitRequestAnimationFrame = None,
        mozRequestAnimationFrame = Some Moz, oRequestAnimationFrame = None,
        msRequestAnimationFrame = Some Ms\<rparr> (\<lambda>n::int. n + 1) (JRef 7) \<lparr>app = 0, pending = []\<rparr> =
      Inr \<lparr>app = 4, pending = [JRef 7]\<rparr>"
proof -
  let ?win = "\<lparr>requestAnimationFrame = None, webkitRequestAnimationFrame = None,
        mozRequestAnimationFrame = Some Moz, oRequestAnimationFrame = None,
        msRequestAnimationFrame = Some Ms\<rparr>"
  have a: "raf ?win = Some Moz" by (simp add: raf_def)
  from animate_ticks [OF a, of "\<lambda>n::int. 2 * n" "JRef 7" 3 4] a show ?thesis by simp
qed

section \<open>Properties of AABBIntersect\<close>

text \<open>
  C8. \<open>AABBIntersect(a, b)\<close> equals \<open>AABBIntersect(b, a)\<close>, for every pair of
  rectangles and whatever the arithmetic of the numbers is: the two calls evaluate the
  same four comparisons.
\<close>

theorem aabb_symmetric: "AABBIntersect a b = AABBIntersect b a"
  by (auto simp: AABBIntersect_def)

text \<open>
  C2, as the claim words it, fails: a rectangle of zero width that lies strictly inside
  another one intersects it, in both argument orders.
\<close>

theorem aabb_degenerate_counterexample:
  "w \<lparr>x = 5, y = 5, w = 0, h = 5\<rparr> = (0::int)
   \<and> AABBIntersect \<lparr>x = 5, y = 5, w = 0, h = 5\<rparr> \<lparr>x = 0, y = 0, w = 10, h = (10::int)\<rparr>
   \<and> AABBIntersect \<lparr>x = 0, y = 0, w = 10, h = (10::int)\<rparr> \<lparr>x = 5, y = 5, w = 0, h = 5\<rparr>"
  by (simp add: AABBIntersect_def)

text \<open>
  C2, as the code has it. A rectangle \<open>a\<close> of zero width whose \<open>x\<close> is not
  strictly between \<open>b.x\<close> and \<open>b.x + b.w\<close>, or of zero height whose \<open>y\<close> is not
  strictly between \<open>b.y\<close> and \<open>b.y + b.h\<close>, intersects \<open>b\<close> in neither argument
  order. (For numbers with \<open>n + 0 = n\<close>.)
\<close>

theorem aabb_degenerate:
  fixes a b :: "('a::{monoid_add,ord}) rect"
  assumes "(w a = 0 \<and> \<not> (x b < x a \<and> x a < x b + w b))
         \<or> (h a = 0 \<and> \<not> (y b < y a \<and> y a < y b + h b))"
  shows "\<not> AABBIntersect a b \<and> \<not> AABBIntersect b a"
  using assms by (auto simp: AABBIntersect_def)

theorem aabb_degenerate_witness:
  "w \<lparr>x = 0, y = 0, w = 0, h = 5\<rparr> = (0::int)
   \<and> \<not> (x \<lparr>x = 0, y = 0, w = 10, h = (10::int)\<rparr> < x \<lparr>x = 0, y = 0, w = 0, h = (5::int)\<rparr>
        \<and> x \<lparr>x = 0, y = 0, w = 0, h = (5::int)\<rparr>
            < x \<lparr>x = 0, y = 0, w = 10, h = (10::int)\<rparr> + w \<lparr>x = 0, y = 0, w = 10, h = (10::int)\<rparr>)
   \<and> \<not> AABBIntersect \<lparr>x = 0, y = 0, w = 0, h = 5\<rparr> \<lparr>x = 0, y = 0, w = 10, h = (10::int)\<rparr>
   \<and> \<not> AABBIntersect \<lparr>x = 0, y = 0, w = 10, h = (10::int)\<rparr> \<lparr>x = 0, y = 0, w = 0, h = 5\<rparr>"
proof -
  have a: "(w \<lparr>x = 0, y = 0, w = 0, h = 5\<rparr> = (0::int)
      \<and> \<not> (x \<lparr>x = 0, y = 0, w = 10, h = (10::int)\<rparr> < x \<lparr>x = 0, y = 0, w = 0, h = (5::int)\<rparr>
        \<and> x \<lparr>x = 0, y = 0, w = 0, h = (5::int)\<rparr>
            < x \<lparr>x = 0, y = 0, w = 10, h = (10::int)\<rparr> + w \<lparr>x = 0, y = 0, w = 10, h = (10::int)\<rparr>))
    \<or> (h \<lparr>x = 0, y = 0, w = 0, h = 5\<rparr> = (0::int)
      \<and> \<not> (y \<lparr>x = 0, y = 0, w = 10, h = (10::int)\<rparr> < y \<lparr>x = 0, y = 0, w = 0, h = (5::int)\<rparr>
        \<and> y \<lparr>x = 0, y = 0, w = 0, h = (5::int)\<rparr>
            < y \<lparr>x = 0, y = 0, w = 10, h = (10::int)\<rparr> + h \<lparr>x = 0, y = 0, w = 10, h = (10::int)\<rparr>))"
    by simp
  from aabb_degenerate [OF a] show ?thesis by simp
qed

end
